theory Spec2Isabelle
  imports Complex_Main
begin

section \<open>Isotherm Shifter: the numeric core of main.py\<close>

text \<open>
  main.py is a Streamlit script. Its numeric part is lines 68 to 72:
  \<^verbatim>\<open>
  baseline_q = np.interp(start_rh, iso[rh_col], iso[q_col])
  initial_total_mass = 1.0 + baseline_q
  iso["Adjusted uptake (g/g initial mass)"] =
      (1.0 + iso[q_col] - initial_total_mass) / initial_total_mass
  \<close>
  Numbers are float64 in the program. The model computes over \<^typ>\<open>real\<close>: rounding is
  not modelled, and a float that is not a finite number (NaN, plus or minus infinity),
  which is what a division by zero produces in NumPy and pandas, is the value \<open>None\<close>
  of \<^typ>\<open>real option\<close>. The cleaned frame \<open>iso\<close> is the list of its rows
  \<open>(RH, loading)\<close>, in row order; it is the variable \<open>isot\<close> below.
\<close>

datatype error = ValueError | KeyError | EmptyDataError | ParserError

type_synonym float = "real option"

type_synonym series = "(real \<times> real) list"

subsection \<open>NumPy's interp, as called on line 68\<close>

text \<open>
  \<open>np.interp(x, xp, fp)\<close> with a scalar \<open>x\<close> and no \<open>left\<close>, \<open>right\<close> or
  \<open>period\<close> runs NumPy's \<open>arr_interp\<close>, which finds the interval of \<open>x\<close> with
  \<open>binary_search_with_guess\<close> (initial guess 0). Indices are \<^typ>\<open>nat\<close> where the C
  code reads the array, and \<^typ>\<open>int\<close> for the search's result, which is \<open>-1\<close>
  below the first sample and \<open>len\<close> above the last.

  \<^verbatim>\<open>
  for (i = i0; i < len && key >= arr[i]; i++);
  return i - 1;
  \<close>
\<close>

function linear_search :: "real \<Rightarrow> real list \<Rightarrow> nat \<Rightarrow> int" where
  "linear_search key arr i =
     (if i < length arr \<and> key \<ge> arr ! i then linear_search key arr (Suc i)
      else int i - 1)"
  by pat_completeness auto
termination
  by (relation "measure (\<lambda>(key, arr, i). length arr - i)") auto

declare linear_search.simps [simp del]

text \<open>
  \<^verbatim>\<open>
  while (imin < imax) {
      const npy_intp imid = imin + ((imax - imin) >> 1);
      if (key >= arr[imid]) imin = imid + 1; else imax = imid;
  }
  return imin - 1;
  \<close>
\<close>

function bisection :: "real \<Rightarrow> real list \<Rightarrow> nat \<Rightarrow> nat \<Rightarrow> int" where
  "bisection key arr imin imax =
     (if imin < imax then
        (let imid = imin + (imax - imin) div 2
         in if key \<ge> arr ! imid then bisection key arr (imid + 1) imax
            else bisection key arr imin imid)
      else int imin - 1)"
  by pat_completeness auto
termination
  by (relation "measure (\<lambda>(key, arr, imin, imax). imax - imin)") auto

declare bisection.simps [simp del]

definition LIKELY_IN_CACHE_SIZE :: nat where
  "LIKELY_IN_CACHE_SIZE = 8"

text \<open>
  Keys outside the range of \<open>arr\<close> are answered first; arrays of at most four samples
  are searched linearly from index 1; otherwise the three entries around the guess are
  tried, the window is narrowed when the key is within \<open>LIKELY_IN_CACHE_SIZE\<close> entries
  of the guess, and the index is found by bisection. The caller guarantees
  \<open>0 < length arr\<close>.
\<close>

definition binary_search_with_guess :: "real \<Rightarrow> real list \<Rightarrow> nat \<Rightarrow> int" where
  "binary_search_with_guess key arr guess0 =
     (let len = length arr in
      if key > arr ! (len - 1) then int len
      else if key < arr ! 0 then - 1
      else if len \<le> 4 then linear_search key arr 1
      else
        (let guess1 = (if guess0 > len - 3 then len - 3 else guess0);
             guess = (if guess1 < 1 then 1 else guess1)
         in if key < arr ! guess then
              (if key < arr ! (guess - 1) then
                 bisection key arr
                   (if guess > LIKELY_IN_CACHE_SIZE
                       \<and> key \<ge> arr ! (guess - LIKELY_IN_CACHE_SIZE)
                    then guess - LIKELY_IN_CACHE_SIZE else 0)
                   (guess - 1)
               else int guess - 1)
            else if key < arr ! (guess + 1) then int guess
            else if key < arr ! (guess + 2) then int guess + 1
            else
              bisection key arr (guess + 2)
                (if int guess < int len - int LIKELY_IN_CACHE_SIZE - 1
                    \<and> key < arr ! (guess + LIKELY_IN_CACHE_SIZE)
                 then guess + LIKELY_IN_CACHE_SIZE else len)))"

text \<open>
  The value at \<open>x\<close> when the search returned an interior index \<open>j\<close> and \<open>x\<close> is not
  the sample \<open>xp[j]\<close>:
  \<^verbatim>\<open>
  slope = (dy[j+1] - dy[j]) / (dxp[j+1] - dxp[j]);
  dres = slope*(x_val - dxp[j]) + dy[j];
  if (isnan(dres)) {
      dres = slope*(x_val - dxp[j+1]) + dy[j+1];
      if (isnan(dres) && dy[j] == dy[j+1]) dres = dy[j];
  }
  \<close>
  When the two samples have the same abscissa the slope is \<open>0/0\<close> (NaN) for equal
  ordinates, and the last line returns \<open>dy[j]\<close>; otherwise the slope is infinite and so is
  the result.
\<close>

definition interp_between :: "real \<Rightarrow> real list \<Rightarrow> real list \<Rightarrow> nat \<Rightarrow> float" where
  "interp_between x xp fp j =
     (if xp ! (j + 1) - xp ! j = 0 then
        (if fp ! j = fp ! (j + 1) then Some (fp ! j) else None)
      else
        (let slope = (fp ! (j + 1) - fp ! j) / (xp ! (j + 1) - xp ! j)
         in Some (slope * (x - xp ! j) + fp ! j)))"

text \<open>
  \<open>arr_interp\<close>: an empty \<open>xp\<close> and arrays of different lengths raise ValueError; the
  values left and right of the samples default to \<open>fp[0]\<close> and \<open>fp[-1]\<close>; a single
  sample is compared directly.
\<close>

definition interp :: "real \<Rightarrow> real list \<Rightarrow> real list \<Rightarrow> error + float" where
  "interp x xp fp =
     (let lenxp = length xp in
      if lenxp = 0 then Inl ValueError
      else if length fp \<noteq> lenxp then Inl ValueError
      else
        (let lval = fp ! 0; rval = fp ! (lenxp - 1) in
         if lenxp = 1 then
           Inr (Some (if x < xp ! 0 then lval else if x > xp ! 0 then rval else fp ! 0))
         else
           (let j = binary_search_with_guess x xp 0 in
            if j = - 1 then Inr (Some lval)
            else if j = int lenxp then Inr (Some rval)
            else if j = int lenxp - 1 then Inr (Some (fp ! nat j))
            else if xp ! nat j = x then Inr (Some (fp ! nat j))
            else Inr (interp_between x xp fp (nat j)))))"

subsection \<open>Lines 68 to 72\<close>

definition baseline_q :: "series \<Rightarrow> real \<Rightarrow> error + float" where
  "baseline_q isot start_rh = interp start_rh (map fst isot) (map snd isot)"

definition initial_total_mass :: "float \<Rightarrow> float" where
  "initial_total_mass b = map_option (\<lambda>v. 1 + v) b"

text \<open>
  One entry of the new column. Dividing by zero raises nothing in pandas: the entry is
  NaN or infinite, here \<open>None\<close>.
\<close>

definition adjusted_uptake :: "real \<Rightarrow> float \<Rightarrow> float" where
  "adjusted_uptake q m =
     (case m of
        None \<Rightarrow> None
      | Some mass \<Rightarrow> if mass = 0 then None else Some ((1 + q - mass) / mass))"

definition adjusted_column :: "series \<Rightarrow> real \<Rightarrow> error + float list" where
  "adjusted_column isot start_rh =
     (case baseline_q isot start_rh of
        Inl e \<Rightarrow> Inl e
      | Inr b \<Rightarrow> Inr (map (\<lambda>p. adjusted_uptake (snd p) (initial_total_mass b)) isot))"

text \<open>
  The second form of the entry, as the specification writes it:
  \<open>(p.loading - baseline_q) / (1.0 + baseline_q)\<close>, with the same reading of a
  division by zero.
\<close>

definition adjusted_uptake_spec :: "real \<Rightarrow> float \<Rightarrow> float" where
  "adjusted_uptake_spec q b =
     (case b of
        None \<Rightarrow> None
      | Some bq \<Rightarrow> if 1 + bq = 0 then None else Some ((q - bq) / (1 + bq)))"

text \<open>Line 61: \<open>rh_min, rh_max = iso[rh_col].min(), iso[rh_col].max()\<close>.\<close>

definition rh_min :: "series \<Rightarrow> real" where
  "rh_min isot = Min (set (map fst isot))"

definition rh_max :: "series \<Rightarrow> real" where
  "rh_max isot = Max (set (map fst isot))"

text \<open>
  The index that the search is meant to find: the last sample that is not above the key.
  It is used to state what \<open>binary_search_with_guess\<close> returns on ascending samples.
\<close>

definition last_le :: "real \<Rightarrow> real list \<Rightarrow> nat \<Rightarrow> bool" where
  "last_le key arr j \<longleftrightarrow>
     j < length arr \<and> arr ! j \<le> key \<and> (\<forall>k. j < k \<and> k < length arr \<longrightarrow> key < arr ! k)"

section \<open>The script around the numeric core\<close>

subsection \<open>The uploaded table and its cleaning, lines 30 to 56\<close>

text \<open>
  A data frame is the list of its columns, each with its label, in column order.
  \<open>pd.read_csv\<close> gives every column of \<open>df_raw\<close> a label of its own and the same
  number of cells. A cell of \<open>df_raw\<close> is missing (NaN), or holds a number (as a
  number, or as a text that \<open>pd.to_numeric\<close> reads as that number), or holds a text that
  \<open>pd.to_numeric\<close> does not read as a number and that \<open>errors="coerce"\<close> turns into NaN.
\<close>

datatype cell = Missing | Number real | Text string

type_synonym 'a frame = "(string \<times> 'a list) list"

definition columns :: "'a frame \<Rightarrow> string list" where
  "columns df = map fst df"

definition nrows :: "'a frame \<Rightarrow> nat" where
  "nrows df = (case df of [] \<Rightarrow> 0 | c # _ \<Rightarrow> length (snd c))"

text \<open>\<open>DataFrame.empty\<close>: one of the two axes has length 0.\<close>

definition df_empty :: "'a frame \<Rightarrow> bool" where
  "df_empty df \<longleftrightarrow> length (columns df) = 0 \<or> nrows df = 0"

fun to_numeric :: "cell \<Rightarrow> float" where
  "to_numeric Missing = None"
| "to_numeric (Number r) = Some r"
| "to_numeric (Text s) = None"

text \<open>The first \<open>dropna()\<close>, on the cells of the two selected columns, row by row.\<close>

definition dropna_cells :: "(cell \<times> cell) list \<Rightarrow> (cell \<times> cell) list" where
  "dropna_cells rows = filter (\<lambda>r. fst r \<noteq> Missing \<and> snd r \<noteq> Missing) rows"

text \<open>The second \<open>dropna()\<close>, after the coercion: only rows with two numbers stay.\<close>

fun dropna :: "(float \<times> float) list \<Rightarrow> series" where
  "dropna [] = []"
| "dropna ((Some x, Some y) # rows) = (x, y) # dropna rows"
| "dropna (_ # rows) = dropna rows"

text \<open>
  \<open>sort_values(rh_col)\<close> orders the rows by ascending RH. Rows with the same RH keep
  their order here; pandas' default sort does not promise an order among them, and no
  theorem below depends on it.
\<close>

definition sort_values :: "series \<Rightarrow> series" where
  "sort_values rows = sort_key fst rows"

text \<open>
  Lines 45 to 52. A label that is not a column of \<open>df_raw\<close> raises KeyError in
  \<open>df_raw[[rh_col, q_col]]\<close> (the select boxes only offer the columns, so the script
  does not get there). When the same column is selected twice the frame has two columns
  with one label, and \<open>sort_values\<close> raises ValueError because the label is not unique.
  \<open>reset_index(drop=True)\<close> renumbers the rows, which are numbered by position here.
\<close>

definition clean :: "cell frame \<Rightarrow> string \<Rightarrow> string \<Rightarrow> error + series" where
  "clean df_raw rh_col q_col =
     (case (map_of df_raw rh_col, map_of df_raw q_col) of
        (Some rh, Some q) \<Rightarrow>
          (let selected = zip rh q;
               numeric = map (\<lambda>r. (to_numeric (fst r), to_numeric (snd r)))
                           (dropna_cells selected);
               kept = dropna numeric
           in if rh_col = q_col then Inl ValueError else Inr (sort_values kept))
      | _ \<Rightarrow> Inl KeyError)"

subsection \<open>The new column and the export, lines 72 and 90 to 95\<close>

definition adjusted_name :: string where
  "adjusted_name = ''Adjusted uptake (g/g initial mass)''"

text \<open>
  \<open>iso[name] = col\<close> replaces the column with that label when there is one, and
  appends a new last column otherwise.
\<close>

definition assign :: "string \<Rightarrow> 'a list \<Rightarrow> 'a frame \<Rightarrow> 'a frame" where
  "assign name col df =
     (if name \<in> set (columns df)
      then map (\<lambda>c. if fst c = name then (name, col) else c) df
      else df @ [(name, col)])"

text \<open>The cleaned frame \<open>iso\<close> with its two labels.\<close>

definition iso_frame :: "string \<Rightarrow> string \<Rightarrow> series \<Rightarrow> float frame" where
  "iso_frame rh_col q_col isot =
     [(rh_col, map (\<lambda>p. Some (fst p)) isot), (q_col, map (\<lambda>p. Some (snd p)) isot)]"

text \<open>
  \<open>DataFrame.to_csv\<close> writes one record per line, its fields separated by commas: first
  the header record with the column labels, then one record per row. With \<open>index=True\<close>
  every record starts with a field for the row index. The text is modelled as the list of
  its records; how a number is printed and how a label is quoted is left to pandas, and
  \<open>.encode("utf-8")\<close> turns that text into the bytes handed to the download button.
\<close>

datatype field = Name string | Index nat | Value float

definition to_csv :: "bool \<Rightarrow> float frame \<Rightarrow> field list list" where
  "to_csv index df =
     (let header = map Name (columns df);
          record = (\<lambda>i. map (\<lambda>c. Value (snd c ! i)) df)
      in if index
         then (Name [] # header) # map (\<lambda>i. Index i # record i) [0..<nrows df]
         else header # map record [0..<nrows df])"

subsection \<open>One run of the script\<close>

text \<open>
  Streamlit runs main.py from top to bottom on every interaction. A run is modelled by
  the elements it puts on the page, in order, and by how it ends: at the last line, at
  \<open>st.stop()\<close>, or with an exception. What the user does is the input of the run: the
  uploaded file as \<open>pd.read_csv\<close> reads it (or the exception it raises), the entries
  picked in the two select boxes, and the position of the slider. The text of
  \<open>st.write\<close> and the styling of the chart are left out; the chart keeps its frame, its
  two axes and the start value shown in its title.
\<close>

datatype element =
    Title string
  | Write
  | FileUploader string
  | Info string
  | Subheader string
  | Dataframe "cell frame"
  | Error string
  | Selectbox string "string list" nat
  | Slider string real real real real
  | PlotlyChart "float frame" string string real
  | DownloadButton string "field list list" string string

datatype outcome = Finished | Stopped | Raised error

record inputs =
  uploaded_file :: "(error + cell frame) option"
  rh_choice :: string
  q_choice :: string
  slider_choice :: real

definition run :: "inputs \<Rightarrow> element list \<times> outcome" where
  "run inp =
     (let page1 = [Title ''Isotherm Shifter'', Write, FileUploader ''CSV file''] in
      case uploaded_file inp of
        None \<Rightarrow>
          (page1 @ [Info ''Upload a CSV to get started. Expected columns: Relative Humidity (%) and water loading (g/g).''],
           Stopped)
      | Some (Inl e) \<Rightarrow> (page1, Raised e)
      | Some (Inr df_raw) \<Rightarrow>
          (let page2 = page1 @ [Subheader ''Raw Data'', Dataframe df_raw] in
           if df_empty df_raw \<or> length (columns df_raw) < 2 then
             (page2 @ [Error ''CSV must contain at least two numeric columns (RH and loading).''],
              Stopped)
           else
             (let rh_col = rh_choice inp;
                  q_col = q_choice inp;
                  page3 = page2 @
                    [Selectbox ''Column containing RH (%)'' (columns df_raw) 0,
                     Selectbox ''Column containing loading (g water / g salt)''
                       (columns df_raw) 1]
              in case clean df_raw rh_col q_col of
                   Inl e \<Rightarrow> (page3, Raised e)
                 | Inr isot \<Rightarrow>
                     if isot = [] then
                       (page3 @ [Error ''Selected columns could not be converted to numeric values.''],
                        Stopped)
                     else
                       (let start_rh = slider_choice inp;
                            page4 = page3 @
                              [Slider ''Starting RH (%)''
                                 (rh_min isot) (rh_max isot) (rh_min isot) 1]
                        in case adjusted_column isot start_rh of
                             Inl e \<Rightarrow> (page4, Raised e)
                           | Inr col \<Rightarrow>
                               (let df = assign adjusted_name col (iso_frame rh_col q_col isot)
                                in (page4 @
                                      [PlotlyChart df rh_col adjusted_name start_rh,
                                       DownloadButton ''Download adjusted isotherm as CSV''
                                         (to_csv False df) ''adjusted_isotherm.csv''
                                         ''text/csv''],
                                    Finished))))))"

text \<open>
  The elements that the script renders only after both checks (lines 37 and 54) have
  passed: the slider that supplies \<open>start_rh\<close> on line 62, the chart and the download
  button. The computation of lines 68 to 72 lies between the slider and the chart.
\<close>

fun after_cleaning :: "element \<Rightarrow> bool" where
  "after_cleaning (Slider _ _ _ _ _) = True"
| "after_cleaning (PlotlyChart _ _ _ _) = True"
| "after_cleaning (DownloadButton _ _ _ _) = True"
| "after_cleaning _ = False"

subsection \<open>The worked examples of the specification\<close>

definition example_series :: series where
  "example_series = [(0, 0.05), (20, 0.10), (40, 0.18), (60, 0.30), (80, 0.50), (100, 0.80)]"

definition interpolation_series :: series where
  "interpolation_series = [(0, 0.10), (50, 0.30), (100, 0.60)]"


section \<open>What the search and the interpolation return on ascending samples\<close>

lemma last_le_unique:
  assumes "sorted arr" "last_le key arr j" "last_le key arr j'"
  shows "j = j'"
proof (rule ccontr)
  assume "j \<noteq> j'"
  then consider "j < j'" | "j' < j" by linarith
  then show False
    using assms by cases (auto simp: last_le_def)
qed

lemma linear_search_last_le:
  assumes "sorted arr" "0 < i" "i \<le> length arr" "\<forall>k<i. arr ! k \<le> key"
  shows "\<exists>j. linear_search key arr i = int j \<and> last_le key arr j"
  using assms
proof (induction key arr i rule: linear_search.induct)
  case (1 key arr i)
  show ?case
  proof (cases "i < length arr \<and> key \<ge> arr ! i")
    case True
    have "\<forall>k<Suc i. arr ! k \<le> key"
      using "1.prems"(4) True by (auto simp: less_Suc_eq)
    with "1.IH" True "1.prems" have "\<exists>j. linear_search key arr (Suc i) = int j \<and> last_le key arr j"
      by simp
    then show ?thesis using True by (subst linear_search.simps) simp
  next
    case False
    have stop: "\<forall>k. i \<le> k \<and> k < length arr \<longrightarrow> key < arr ! k"
    proof (intro allI impI)
      fix k assume k: "i \<le> k \<and> k < length arr"
      then have "i < length arr" by simp
      with False have "key < arr ! i" by simp
      moreover have "arr ! i \<le> arr ! k"
        using "1.prems"(1) k by (simp add: sorted_nth_mono)
      ultimately show "key < arr ! k" by simp
    qed
    have "linear_search key arr i = int (i - 1)"
      using False "1.prems"(2) by (subst linear_search.simps) (auto simp: of_nat_diff)
    moreover have "last_le key arr (i - 1)"
      unfolding last_le_def using "1.prems" stop by auto
    ultimately show ?thesis by blast
  qed
qed

lemma bisection_last_le:
  assumes "sorted arr" "imin \<le> imax" "imax \<le> length arr" "0 < length arr"
    "arr ! 0 \<le> key"
    "\<forall>k<imin. arr ! k \<le> key"
    "\<forall>k. imax \<le> k \<and> k < length arr \<longrightarrow> key < arr ! k"
  shows "\<exists>j. bisection key arr imin imax = int j \<and> last_le key arr j"
  using assms
proof (induction key arr imin imax rule: bisection.induct)
  case (1 key arr imin imax)
  show ?case
  proof (cases "imin < imax")
    case False
    then have eq: "imin = imax" using "1.prems"(2) by simp
    have pos: "0 < imin"
    proof (rule ccontr)
      assume "\<not> 0 < imin"
      then have "imax = 0" using eq by simp
      then have "key < arr ! 0" using "1.prems"(4,7) by simp
      then show False using "1.prems"(5) by simp
    qed
    have "bisection key arr imin imax = int (imin - 1)"
      using False pos by (subst bisection.simps) (auto simp: of_nat_diff)
    moreover have "last_le key arr (imin - 1)"
      unfolding last_le_def using "1.prems" eq pos by auto
    ultimately show ?thesis by blast
  next
    case True
    define imid where "imid = imin + (imax - imin) div 2"
    have mid: "imin \<le> imid" "imid < imax" using True by (auto simp: imid_def)
    show ?thesis
    proof (cases "key \<ge> arr ! imid")
      case ge: True
      have "\<forall>k<imid + 1. arr ! k \<le> key"
      proof (intro allI impI)
        fix k assume "k < imid + 1"
        then have "k \<le> imid" by simp
        then have "arr ! k \<le> arr ! imid"
          using "1.prems"(1,3) mid by (simp add: sorted_nth_mono)
        then show "arr ! k \<le> key" using ge by simp
      qed
      then have "\<exists>j. bisection key arr (imid + 1) imax = int j \<and> last_le key arr j"
        using "1.IH"(1)[OF True imid_def ge] "1.prems" mid by simp
      then show ?thesis
        using True ge by (subst bisection.simps) (simp add: imid_def Let_def)
    next
      case lt: False
      have "\<forall>k. imid \<le> k \<and> k < length arr \<longrightarrow> key < arr ! k"
      proof (intro allI impI)
        fix k assume k: "imid \<le> k \<and> k < length arr"
        then have "arr ! imid \<le> arr ! k"
          using "1.prems"(1) by (simp add: sorted_nth_mono)
        then show "key < arr ! k" using lt by simp
      qed
      then have "\<exists>j. bisection key arr imin imid = int j \<and> last_le key arr j"
        using "1.IH"(2)[OF True imid_def lt] "1.prems" mid by simp
      then show ?thesis
        using True lt by (subst bisection.simps) (simp add: imid_def Let_def)
    qed
  qed
qed

lemma sorted_le_prefix:
  assumes "sorted arr" "m < length arr" "arr ! m \<le> key"
  shows "\<forall>k<m. arr ! k \<le> (key::real)"
proof (intro allI impI)
  fix k assume "k < m"
  then have "arr ! k \<le> arr ! m" using assms(1,2) by (simp add: sorted_nth_mono)
  then show "arr ! k \<le> key" using assms(3) by simp
qed

lemma sorted_gt_suffix:
  assumes "sorted arr" "key < arr ! m"
  shows "\<forall>k. m \<le> k \<and> k < length arr \<longrightarrow> (key::real) < arr ! k"
proof (intro allI impI)
  fix k assume k: "m \<le> k \<and> k < length arr"
  then have "arr ! m \<le> arr ! k" using assms(1) by (simp add: sorted_nth_mono)
  then show "key < arr ! k" using assms(2) by simp
qed

lemma last_le_between:
  assumes "sorted arr" "m + 1 < length arr" "arr ! m \<le> key" "key < arr ! (m + 1)"
  shows "last_le key arr m"
  unfolding last_le_def using assms sorted_gt_suffix[OF assms(1,4)] by auto

lemma binary_search_with_guess_inside:
  assumes srt: "sorted arr" and len: "0 < length arr"
    and lo: "arr ! 0 \<le> key" and hi: "key \<le> arr ! (length arr - 1)"
  shows "\<exists>j. binary_search_with_guess key arr guess0 = int j \<and> last_le key arr j"
proof (cases "length arr \<le> 4")
  case True
  have "\<forall>k<1. arr ! k \<le> key" using lo by simp
  then have "\<exists>j. linear_search key arr 1 = int j \<and> last_le key arr j"
    using linear_search_last_le[OF srt, of 1 key] len by simp
  then show ?thesis
    using True lo hi by (simp add: binary_search_with_guess_def Let_def)
next
  case False
  define guess1 where "guess1 = (if guess0 > length arr - 3 then length arr - 3 else guess0)"
  define guess where "guess = (if guess1 < 1 then 1 else guess1)"
  have g: "1 \<le> guess" "guess + 2 < length arr"
    using False by (auto simp: guess_def guess1_def)
  define imin1 where "imin1 = (if guess > LIKELY_IN_CACHE_SIZE
                       \<and> key \<ge> arr ! (guess - LIKELY_IN_CACHE_SIZE)
                    then guess - LIKELY_IN_CACHE_SIZE else 0)"
  define imax1 where "imax1 = (if int guess < int (length arr) - int LIKELY_IN_CACHE_SIZE - 1
                    \<and> key < arr ! (guess + LIKELY_IN_CACHE_SIZE)
                 then guess + LIKELY_IN_CACHE_SIZE else length arr)"
  have unfold: "binary_search_with_guess key arr guess0 =
     (if key < arr ! guess then
        (if key < arr ! (guess - 1) then bisection key arr imin1 (guess - 1)
         else int guess - 1)
      else if key < arr ! (guess + 1) then int guess
      else if key < arr ! (guess + 2) then int guess + 1
      else bisection key arr (guess + 2) imax1)"
    using False lo hi
    by (simp add: binary_search_with_guess_def Let_def guess_def guess1_def imin1_def imax1_def)
  consider (a1) "key < arr ! guess" "key < arr ! (guess - 1)"
    | (a2) "key < arr ! guess" "\<not> key < arr ! (guess - 1)"
    | (b1) "\<not> key < arr ! guess" "key < arr ! (guess + 1)"
    | (b2) "\<not> key < arr ! guess" "\<not> key < arr ! (guess + 1)" "key < arr ! (guess + 2)"
    | (b3) "\<not> key < arr ! guess" "\<not> key < arr ! (guess + 1)" "\<not> key < arr ! (guess + 2)"
    by blast
  then show ?thesis
  proof cases
    case a1
    have "imin1 \<le> guess - 1" by (auto simp: imin1_def LIKELY_IN_CACHE_SIZE_def)
    moreover have "\<forall>k<imin1. arr ! k \<le> key"
    proof (cases "guess > LIKELY_IN_CACHE_SIZE \<and> key \<ge> arr ! (guess - LIKELY_IN_CACHE_SIZE)")
      case True
      then show ?thesis
        using sorted_le_prefix[OF srt, of "guess - LIKELY_IN_CACHE_SIZE" key] g
        by (simp add: imin1_def)
    next
      case False
      then show ?thesis by (auto simp: imin1_def)
    qed
    moreover have "\<forall>k. guess - 1 \<le> k \<and> k < length arr \<longrightarrow> key < arr ! k"
      using sorted_gt_suffix[OF srt a1(2)] .
    ultimately have "\<exists>j. bisection key arr imin1 (guess - 1) = int j \<and> last_le key arr j"
      using bisection_last_le[OF srt, of imin1 "guess - 1" key] g len lo by simp
    then show ?thesis using a1 unfold by simp
  next
    case a2
    have "last_le key arr (guess - 1)"
      using last_le_between[OF srt, of "guess - 1" key] a2 g by simp
    moreover have "binary_search_with_guess key arr guess0 = int (guess - 1)"
      using a2 g by (simp add: unfold of_nat_diff)
    ultimately show ?thesis by blast
  next
    case b1
    have "last_le key arr guess"
      using last_le_between[OF srt, of guess key] b1 g by simp
    moreover have "binary_search_with_guess key arr guess0 = int guess"
      using b1 by (simp add: unfold)
    ultimately show ?thesis by blast
  next
    case b2
    have "last_le key arr (guess + 1)"
      using last_le_between[OF srt, of "guess + 1" key] b2 g by (simp add: add.assoc)
    moreover have "binary_search_with_guess key arr guess0 = int (guess + 1)"
      using b2 by (simp add: unfold)
    ultimately show ?thesis by blast
  next
    case b3
    have "guess + 2 \<le> imax1" "imax1 \<le> length arr"
      using g by (auto simp: imax1_def LIKELY_IN_CACHE_SIZE_def)
    moreover have "\<forall>k<guess + 2. arr ! k \<le> key"
      using sorted_le_prefix[OF srt, of "guess + 2" key] g b3 by simp
    moreover have "\<forall>k. imax1 \<le> k \<and> k < length arr \<longrightarrow> key < arr ! k"
    proof (cases "int guess < int (length arr) - int LIKELY_IN_CACHE_SIZE - 1
                    \<and> key < arr ! (guess + LIKELY_IN_CACHE_SIZE)")
      case True
      then show ?thesis
        using sorted_gt_suffix[OF srt, of key "guess + LIKELY_IN_CACHE_SIZE"]
        by (simp add: imax1_def)
    next
      case False
      then show ?thesis by (auto simp: imax1_def)
    qed
    ultimately have "\<exists>j. bisection key arr (guess + 2) imax1 = int j \<and> last_le key arr j"
      using bisection_last_le[OF srt, of "guess + 2" imax1 key] len lo by simp
    then show ?thesis using b3 unfold by simp
  qed
qed

lemma binary_search_with_guess_above:
  "key > arr ! (length arr - 1) \<Longrightarrow> binary_search_with_guess key arr g = int (length arr)"
  by (simp add: binary_search_with_guess_def Let_def)

lemma binary_search_with_guess_below:
  "\<not> key > arr ! (length arr - 1) \<Longrightarrow> key < arr ! 0 \<Longrightarrow>
   binary_search_with_guess key arr g = - 1"
  by (simp add: binary_search_with_guess_def Let_def)

lemma sorted_first_le_last:
  assumes "sorted xp" "0 < length xp"
  shows "xp ! 0 \<le> (xp ! (length xp - 1) :: real)"
  using assms by (simp add: sorted_nth_mono)

lemma nat_int_pred: "nat (int n - 1) = n - 1"
  by arith

lemma interp_below:
  assumes "sorted xp" "0 < length xp" "length fp = length xp" "x < xp ! 0"
  shows "interp x xp fp = Inr (Some (fp ! 0))"
proof (cases "length xp = 1")
  case True
  then show ?thesis using assms by (simp add: interp_def)
next
  case False
  have "\<not> x > xp ! (length xp - 1)"
    using sorted_first_le_last[OF assms(1,2)] assms(4) by simp
  then have "binary_search_with_guess x xp 0 = - 1"
    using assms(4) by (rule binary_search_with_guess_below)
  then show ?thesis using assms False by (simp add: interp_def)
qed

lemma interp_above:
  assumes "0 < length xp" "length fp = length xp" "x > xp ! (length xp - 1)"
  shows "interp x xp fp = Inr (Some (fp ! (length xp - 1)))"
proof (cases "length xp = 1")
  case True
  then show ?thesis using assms by (simp add: interp_def)
next
  case False
  have "binary_search_with_guess x xp 0 = int (length xp)"
    using assms(3) by (rule binary_search_with_guess_above)
  then show ?thesis using assms False by (simp add: interp_def)
qed

lemma interp_inside:
  assumes srt: "sorted xp" and len: "0 < length xp" "length fp = length xp"
    and lo: "xp ! 0 \<le> x" and hi: "x \<le> xp ! (length xp - 1)"
  shows "\<exists>j. last_le x xp j \<and>
           interp x xp fp =
             Inr (if j = length xp - 1 \<or> xp ! j = x then Some (fp ! j)
                  else interp_between x xp fp j)"
proof (cases "length xp = 1")
  case True
  have "x = xp ! 0" using lo hi True by simp
  then have "last_le x xp 0" using True by (auto simp: last_le_def)
  moreover have "interp x xp fp = Inr (Some (fp ! 0))"
    using True len \<open>x = xp ! 0\<close> by (simp add: interp_def)
  ultimately show ?thesis using True by auto
next
  case False
  obtain j where j: "binary_search_with_guess x xp 0 = int j" "last_le x xp j"
    using binary_search_with_guess_inside[OF srt len(1) lo hi] by blast
  have jlen: "j < length xp" using j(2) by (simp add: last_le_def)
  have ne: "int j \<noteq> - 1" "int j \<noteq> int (length xp)" using jlen by simp_all
  have last: "int j = int (length xp) - 1 \<longleftrightarrow> j = length xp - 1"
    using jlen by auto
  have "interp x xp fp =
             Inr (if j = length xp - 1 \<or> xp ! j = x then Some (fp ! j)
                  else interp_between x xp fp j)"
    using False len ne by (simp add: interp_def Let_def j(1) last nat_int_pred del: of_nat_eq_iff)
  then show ?thesis using j(2) by blast
qed

lemma interp_between_convex:
  assumes "xp ! j < x" "x < xp ! (j + 1)"
  shows "\<exists>t. 0 < t \<and> t < 1 \<and>
     interp_between x xp fp j = Some ((1 - t) * fp ! j + t * fp ! (j + 1))"
proof -
  define d where "d = xp ! (j + 1) - xp ! j"
  define t where "t = (x - xp ! j) / d"
  have d: "0 < d" using assms by (simp add: d_def)
  have t: "0 < t" "t < 1" using assms d by (simp_all add: t_def d_def)
  have "interp_between x xp fp j = Some ((fp ! (j + 1) - fp ! j) / d * (x - xp ! j) + fp ! j)"
    using d by (simp add: interp_between_def d_def Let_def)
  also have "(fp ! (j + 1) - fp ! j) / d * (x - xp ! j) + fp ! j
      = (1 - t) * fp ! j + t * fp ! (j + 1)"
    using d by (simp add: t_def field_simps)
  finally show ?thesis using t by blast
qed

lemma convex_lower:
  fixes a b c t :: real
  assumes "c \<le> a" "c \<le> b" "0 < t" "t < 1"
  shows "c \<le> (1 - t) * a + t * b"
proof -
  have "(1 - t) * c \<le> (1 - t) * a" using assms by (simp add: mult_left_mono)
  moreover have "t * c \<le> t * b" using assms by (simp add: mult_left_mono)
  moreover have "c = (1 - t) * c + t * c" by (simp add: algebra_simps)
  ultimately show ?thesis by linarith
qed

lemma interp_at_sample:
  assumes srt: "sorted xp" and len: "length fp = length xp"
    and i: "i < length xp" "xp ! i = x"
    and lst: "\<forall>k. i < k \<and> k < length xp \<longrightarrow> xp ! k \<noteq> x"
  shows "interp x xp fp = Inr (Some (fp ! i))"
proof -
  have pos: "0 < length xp" using i by (cases xp) auto
  have lo: "xp ! 0 \<le> x" using srt i sorted_nth_mono[of xp 0 i] by auto
  have hi: "x \<le> xp ! (length xp - 1)"
    using srt i sorted_nth_mono[of xp i "length xp - 1"] by auto
  obtain j where j: "last_le x xp j"
      "interp x xp fp = Inr (if j = length xp - 1 \<or> xp ! j = x then Some (fp ! j)
                  else interp_between x xp fp j)"
    using interp_inside[OF srt pos len lo hi] by blast
  have "last_le x xp i"
    unfolding last_le_def
  proof (intro conjI allI impI)
    show "i < length xp" by fact
    show "xp ! i \<le> x" using i by simp
    fix k assume k: "i < k \<and> k < length xp"
    then have "xp ! i \<le> xp ! k" using srt by (simp add: sorted_nth_mono)
    moreover have "xp ! k \<noteq> x" using lst k by simp
    ultimately show "x < xp ! k" using i(2) by simp
  qed
  then have "j = i" using last_le_unique[OF srt j(1)] by simp
  then show ?thesis using j(2) i by simp
qed

lemma convex_upper:
  fixes a b c t :: real
  assumes "a \<le> c" "b \<le> c" "0 < t" "t < 1"
  shows "(1 - t) * a + t * b \<le> c"
proof -
  have "(1 - t) * a \<le> (1 - t) * c" using assms by (simp add: mult_left_mono)
  moreover have "t * b \<le> t * c" using assms by (simp add: mult_left_mono)
  moreover have "c = (1 - t) * c + t * c" by (simp add: algebra_simps)
  ultimately show ?thesis by linarith
qed

lemma interp_neighbours:
  assumes srt: "sorted xp" and len: "0 < length xp" "length fp = length xp"
  shows "\<exists>v j. interp x xp fp = Inr (Some v) \<and> j < length xp \<and>
           (v = fp ! j \<or>
            (j + 1 < length xp \<and> min (fp ! j) (fp ! (j + 1)) \<le> v
               \<and> v \<le> max (fp ! j) (fp ! (j + 1))))"
proof -
  consider (below) "x < xp ! 0" | (above) "x > xp ! (length xp - 1)"
    | (inside) "xp ! 0 \<le> x" "x \<le> xp ! (length xp - 1)"
    by linarith
  then show ?thesis
  proof cases
    case below
    show ?thesis using interp_below[OF srt len below] len(1) by blast
  next
    case above
    have "length xp - 1 < length xp" using len(1) by simp
    then show ?thesis using interp_above[OF len above] by blast
  next
    case inside
    obtain j where j: "last_le x xp j"
      "interp x xp fp = Inr (if j = length xp - 1 \<or> xp ! j = x then Some (fp ! j)
                  else interp_between x xp fp j)"
      using interp_inside[OF srt len inside] by blast
    have jlen: "j < length xp" and jle: "xp ! j \<le> x"
      and after: "\<forall>k. j < k \<and> k < length xp \<longrightarrow> x < xp ! k"
      using j(1) by (simp_all add: last_le_def)
    show ?thesis
    proof (cases "j = length xp - 1 \<or> xp ! j = x")
      case True
      then have "interp x xp fp = Inr (Some (fp ! j))" using j(2) by simp
      then show ?thesis using jlen by blast
    next
      case False
      then have j1: "j + 1 < length xp" and lt: "xp ! j < x" using jlen jle by auto
      have "x < xp ! (j + 1)" using after j1 by simp
      then obtain t where t: "0 < t" "t < 1"
        "interp_between x xp fp j = Some ((1 - t) * fp ! j + t * fp ! (j + 1))"
        using interp_between_convex[OF lt] by blast
      define v where "v = (1 - t) * fp ! j + t * fp ! (j + 1)"
      have "min (fp ! j) (fp ! (j + 1)) \<le> v"
        unfolding v_def by (rule convex_lower[OF _ _ t(1,2)]) simp_all
      moreover have "v \<le> max (fp ! j) (fp ! (j + 1))"
        unfolding v_def by (rule convex_upper[OF _ _ t(1,2)]) simp_all
      moreover have "interp x xp fp = Inr (Some v)"
        using j(2) False t(3) by (simp add: v_def)
      ultimately show ?thesis using jlen j1 by blast
    qed
  qed
qed

lemma sorted_Min_first:
  assumes "sorted xs" "xs \<noteq> []"
  shows "Min (set xs) = (xs ! 0 :: real)"
proof (rule Min_eqI)
  show "finite (set xs)" by simp
  show "xs ! 0 \<in> set xs" using assms(2) by simp
  fix y assume "y \<in> set xs"
  then obtain k where "k < length xs" "xs ! k = y" by (auto simp: in_set_conv_nth)
  then show "xs ! 0 \<le> y" using assms(1) sorted_nth_mono[of xs 0 k] by auto
qed

lemma sorted_Max_last:
  assumes "sorted xs" "xs \<noteq> []"
  shows "Max (set xs) = (xs ! (length xs - 1) :: real)"
proof (rule Max_eqI)
  show "finite (set xs)" by simp
  show "xs ! (length xs - 1) \<in> set xs" using assms(2) by simp
  fix y assume "y \<in> set xs"
  then obtain k where "k < length xs" "xs ! k = y" by (auto simp: in_set_conv_nth)
  then show "y \<le> xs ! (length xs - 1)"
    using assms(1) sorted_nth_mono[of xs k "length xs - 1"] by auto
qed

lemma baseline_q_nonneg:
  assumes "isot \<noteq> []" "sorted (map fst isot)" "\<forall>p\<in>set isot. 0 \<le> snd p"
  shows "\<exists>b j. baseline_q isot start_rh = Inr (Some b) \<and> 0 \<le> b \<and> j < length isot \<and>
           (b = snd (isot ! j) \<or>
            (j + 1 < length isot \<and> min (snd (isot ! j)) (snd (isot ! (j + 1))) \<le> b
               \<and> b \<le> max (snd (isot ! j)) (snd (isot ! (j + 1)))))"
proof -
  have len: "0 < length (map fst isot)" "length (map snd isot) = length (map fst isot)"
    using assms(1) by simp_all
  obtain v j where raw: "interp start_rh (map fst isot) (map snd isot) = Inr (Some v)"
    "j < length (map fst isot)"
    "v = map snd isot ! j \<or>
       (j + 1 < length (map fst isot)
          \<and> min (map snd isot ! j) (map snd isot ! (j + 1)) \<le> v
          \<and> v \<le> max (map snd isot ! j) (map snd isot ! (j + 1)))"
    using interp_neighbours[OF assms(2) len, of start_rh] by blast
  have vj: "interp start_rh (map fst isot) (map snd isot) = Inr (Some v)"
    "j < length isot"
    "v = map snd isot ! j \<or>
       (j + 1 < length isot \<and> min (map snd isot ! j) (map snd isot ! (j + 1)) \<le> v
          \<and> v \<le> max (map snd isot ! j) (map snd isot ! (j + 1)))"
    using raw by simp_all
  have nn: "0 \<le> snd (isot ! k)" if "k < length isot" for k
    using assms(3) that by simp
  have "0 \<le> v"
  proof (cases "v = map snd isot ! j")
    case True
    then show ?thesis using nn[OF vj(2)] vj(2) by simp
  next
    case False
    then have j1: "j + 1 < length isot"
      and lo: "min (map snd isot ! j) (map snd isot ! (j + 1)) \<le> v"
      using vj(3) by auto
    have "0 \<le> min (snd (isot ! j)) (snd (isot ! (j + 1)))"
      using nn[OF vj(2)] nn[OF j1] by simp
    moreover have "min (snd (isot ! j)) (snd (isot ! (j + 1))) \<le> v"
      using lo vj(2) j1 by simp
    ultimately show ?thesis by linarith
  qed
  moreover have "v = snd (isot ! j) \<or>
       (j + 1 < length isot \<and> min (snd (isot ! j)) (snd (isot ! (j + 1))) \<le> v
          \<and> v \<le> max (snd (isot ! j)) (snd (isot ! (j + 1))))"
    using vj(2,3) by auto
  ultimately show ?thesis using vj(1,2) unfolding baseline_q_def by blast
qed

section \<open>Auxiliary facts about the new column and the export\<close>

lemma adjusted_uptake_self:
  "q \<noteq> - 1 \<Longrightarrow> adjusted_uptake q (initial_total_mass (Some q)) = Some 0"
  by (simp add: adjusted_uptake_def initial_total_mass_def add_eq_0_iff)




section \<open>The claims of the specification\<close>

text \<open>Unfolding the definitions, for evaluating the program on concrete inputs.\<close>

lemmas eval_core = baseline_q_def interp_def binary_search_with_guess_def
  linear_search.simps bisection.simps interp_between_def Let_def LIKELY_IN_CACHE_SIZE_def
  adjusted_column_def adjusted_uptake_def initial_total_mass_def


subsection \<open>C1: zero crossing\<close>

text \<open>
  C1 as stated fails on a cleaned series in which two rows have the same RH: the table
  with the rows (10, 0.1) and (10, 0.2) cleans to itself, \<open>start_rh = 10\<close> coincides with
  both points, the interpolation returns the loading of the later one, and the adjusted
  uptake of the first point is \<open>-1/12\<close>, not 0.
\<close>

theorem zero_crossing_counterexample:
  "clean [(''RH'', [Number 10, Number 10]), (''q'', [Number 0.1, Number 0.2])] ''RH'' ''q''
     = Inr [(10, 0.1), (10, 0.2)]
   \<and> sorted (map fst [(10 :: real, 0.1 :: real), (10, 0.2)])
   \<and> fst ([(10 :: real, 0.1 :: real), (10, 0.2)] ! 0) = 10
   \<and> adjusted_column [(10, 0.1), (10, 0.2)] 10 = Inr [Some (- 1 / 12), Some 0]
   \<and> Some (- 1 / 12) \<noteq> Some (0 :: real)"
  by (simp add: eval_core clean_def dropna_cells_def sort_values_def)

text \<open>
  C1, amended: for every series sorted by ascending RH and every \<open>start_rh\<close> that is the RH
  of a data point, the adjusted uptake is exactly 0 at the last point whose RH equals
  \<open>start_rh\<close> (the only such point when the RH values are distinct), provided the loading
  of that point is not \<open>-1\<close>, so that the division is defined.
\<close>

theorem zero_crossing:
  assumes "sorted (map fst isot)" and "i < length isot" and "fst (isot ! i) = start_rh"
    and "\<forall>k. i < k \<and> k < length isot \<longrightarrow> fst (isot ! k) \<noteq> start_rh"
    and "snd (isot ! i) \<noteq> - 1"
  shows "\<exists>col. adjusted_column isot start_rh = Inr col \<and> length col = length isot
           \<and> col ! i = Some 0"
proof -
  have "interp start_rh (map fst isot) (map snd isot) = Inr (Some (map snd isot ! i))"
  proof (rule interp_at_sample[OF assms(1)])
    show "length (map snd isot) = length (map fst isot)" by simp
    show "i < length (map fst isot)" using assms(2) by simp
    show "map fst isot ! i = start_rh" using assms(2,3) by simp
    show "\<forall>k. i < k \<and> k < length (map fst isot) \<longrightarrow> map fst isot ! k \<noteq> start_rh"
      using assms(4) by simp
  qed
  then have b: "baseline_q isot start_rh = Inr (Some (snd (isot ! i)))"
    using assms(2) by (simp add: baseline_q_def)
  define col where
    "col = map (\<lambda>p. adjusted_uptake (snd p) (initial_total_mass (Some (snd (isot ! i))))) isot"
  have "adjusted_column isot start_rh = Inr col"
    by (simp add: adjusted_column_def b col_def)
  moreover have "length col = length isot" by (simp add: col_def)
  moreover have "col ! i = Some 0"
    using assms(2) adjusted_uptake_self[OF assms(5)] by (simp add: col_def)
  ultimately show ?thesis by blast
qed

theorem zero_crossing_witness:
  "sorted (map fst example_series) \<and> 2 < length example_series
   \<and> fst (example_series ! 2) = 40 \<and> snd (example_series ! 2) \<noteq> - 1
   \<and> (\<exists>col. adjusted_column example_series 40 = Inr col
          \<and> length col = length example_series \<and> col ! 2 = Some 0)"
proof -
  have h1: "sorted (map fst example_series)" by (simp add: example_series_def)
  have h2: "2 < length example_series" by (simp add: example_series_def)
  have h3: "fst (example_series ! 2) = 40" by (simp add: example_series_def)
  have h4: "\<forall>k. 2 < k \<and> k < length example_series \<longrightarrow> fst (example_series ! k) \<noteq> 40"
  proof (intro allI impI)
    fix k assume "2 < k \<and> k < length example_series"
    then have "k = 3 \<or> k = 4 \<or> k = 5" by (auto simp: example_series_def)
    then show "fst (example_series ! k) \<noteq> 40" by (auto simp: example_series_def)
  qed
  have h5: "snd (example_series ! 2) \<noteq> - 1" by (simp add: example_series_def)
  show ?thesis using zero_crossing[OF h1 h2 h3 h4 h5] h1 h2 h3 h5 by blast
qed

subsection \<open>C2: clamping\<close>

text \<open>
  C2: for every non-empty series sorted by ascending RH, a \<open>start_rh\<close> strictly below the
  minimum RH gives the loading of the first point as baseline, a \<open>start_rh\<close> strictly above
  the maximum RH gives the loading of the last point, and the interpolation raises no
  error, whatever \<open>start_rh\<close> is.
\<close>

theorem clamping:
  assumes "isot \<noteq> []" and "sorted (map fst isot)"
  shows "(start_rh < rh_min isot \<longrightarrow>
            baseline_q isot start_rh = Inr (Some (snd (isot ! 0))))
       \<and> (rh_max isot < start_rh \<longrightarrow>
            baseline_q isot start_rh = Inr (Some (snd (isot ! (length isot - 1)))))
       \<and> (\<forall>e. baseline_q isot start_rh \<noteq> Inl e)"
proof -
  have ne: "map fst isot \<noteq> []" using assms(1) by simp
  have len: "0 < length (map fst isot)" "length (map snd isot) = length (map fst isot)"
    using assms(1) by simp_all
  have mn: "rh_min isot = map fst isot ! 0"
    unfolding rh_min_def by (rule sorted_Min_first[OF assms(2) ne])
  have mx: "rh_max isot = map fst isot ! (length (map fst isot) - 1)"
    unfolding rh_max_def by (rule sorted_Max_last[OF assms(2) ne])
  have below: "baseline_q isot start_rh = Inr (Some (snd (isot ! 0)))"
    if "start_rh < rh_min isot"
  proof -
    have "start_rh < map fst isot ! 0" using that mn by simp
    from interp_below[OF assms(2) len this] show ?thesis
      using assms(1) by (simp add: baseline_q_def)
  qed
  have above: "baseline_q isot start_rh = Inr (Some (snd (isot ! (length isot - 1))))"
    if "rh_max isot < start_rh"
  proof -
    have "start_rh > map fst isot ! (length (map fst isot) - 1)" using that mx by simp
    from interp_above[OF len this] show ?thesis
      using assms(1) by (simp add: baseline_q_def)
  qed
  have "\<exists>v. baseline_q isot start_rh = Inr (Some v)"
    using interp_neighbours[OF assms(2) len, of start_rh] unfolding baseline_q_def by blast
  then have "\<forall>e. baseline_q isot start_rh \<noteq> Inl e" by auto
  with below above show ?thesis by blast
qed

theorem clamping_witness:
  "interpolation_series \<noteq> [] \<and> sorted (map fst interpolation_series)
   \<and> - 5 < rh_min interpolation_series \<and> rh_max interpolation_series < 120
   \<and> baseline_q interpolation_series (- 5) = Inr (Some 0.10)
   \<and> baseline_q interpolation_series 120 = Inr (Some 0.60)"
proof -
  have h1: "interpolation_series \<noteq> []" by (simp add: interpolation_series_def)
  have h2: "sorted (map fst interpolation_series)" by (simp add: interpolation_series_def)
  have lo: "- 5 < rh_min interpolation_series"
    by (simp add: interpolation_series_def rh_min_def)
  have hi: "rh_max interpolation_series < 120"
    by (simp add: interpolation_series_def rh_max_def)
  have first: "snd (interpolation_series ! 0) = 0.10"
    and last: "snd (interpolation_series ! (length interpolation_series - 1)) = 0.60"
    by (simp_all add: interpolation_series_def)
  show ?thesis
    using clamping[OF h1 h2, of "- 5"] clamping[OF h1 h2, of 120] h1 h2 lo hi first last
    by simp
qed

subsection \<open>C3: the two forms of the formula\<close>

text \<open>
  C3: for every series, every \<open>start_rh\<close> and every point of the series, the value that
  line 72 computes, \<open>(1.0 + p.loading - initial_total_mass) / initial_total_mass\<close> with
  \<open>initial_total_mass = 1.0 + baseline_q\<close>, equals
  \<open>(p.loading - baseline_q) / (1.0 + baseline_q)\<close>; both are undefined together.
\<close>

theorem formula_equivalence:
  "adjusted_uptake q (initial_total_mass b) = adjusted_uptake_spec q b
   \<and> adjusted_column isot start_rh =
       (case baseline_q isot start_rh of
          Inl e \<Rightarrow> Inl e
        | Inr bq \<Rightarrow> Inr (map (\<lambda>p. adjusted_uptake_spec (snd p) bq) isot))"
proof -
  have eq: "adjusted_uptake x (initial_total_mass y) = adjusted_uptake_spec x y" for x y
    by (cases y)
      (simp_all add: adjusted_uptake_def adjusted_uptake_spec_def initial_total_mass_def)
  show ?thesis
    by (simp add: eq adjusted_column_def split: sum.splits)
qed

subsection \<open>C4: the division is defined\<close>

text \<open>
  C4: for every non-empty series sorted by ascending RH whose loadings are all
  non-negative, and every \<open>start_rh\<close>, the interpolated baseline is a number that equals
  the loading of a point or lies between the loadings of two neighbouring points; it is
  non-negative, so \<open>1.0 + baseline_q\<close> is not 0 and every entry of the adjusted column
  is a number.
\<close>

theorem division_safety:
  assumes "isot \<noteq> []" and "sorted (map fst isot)" and "\<forall>p\<in>set isot. 0 \<le> snd p"
  shows "\<exists>b j col. baseline_q isot start_rh = Inr (Some b) \<and> 0 \<le> b
           \<and> j < length isot
           \<and> (b = snd (isot ! j) \<or>
               (j + 1 < length isot
                  \<and> min (snd (isot ! j)) (snd (isot ! (j + 1))) \<le> b
                  \<and> b \<le> max (snd (isot ! j)) (snd (isot ! (j + 1)))))
           \<and> initial_total_mass (Some b) = Some (1 + b) \<and> 1 + b \<noteq> 0
           \<and> adjusted_column isot start_rh = Inr col
           \<and> length col = length isot \<and> None \<notin> set col"
proof -
  obtain b j where b: "baseline_q isot start_rh = Inr (Some b)" "0 \<le> b" "j < length isot"
    "b = snd (isot ! j) \<or>
       (j + 1 < length isot \<and> min (snd (isot ! j)) (snd (isot ! (j + 1))) \<le> b
          \<and> b \<le> max (snd (isot ! j)) (snd (isot ! (j + 1))))"
    using baseline_q_nonneg[OF assms] by blast
  define col where "col = map (\<lambda>p. adjusted_uptake (snd p) (initial_total_mass (Some b))) isot"
  have nz: "1 + b \<noteq> 0" using b(2) by simp
  have "adjusted_column isot start_rh = Inr col"
    by (simp add: adjusted_column_def b(1) col_def)
  moreover have "None \<notin> set col"
    using nz by (auto simp: col_def adjusted_uptake_def initial_total_mass_def)
  moreover have "length col = length isot" by (simp add: col_def)
  moreover have "initial_total_mass (Some b) = Some (1 + b)"
    by (simp add: initial_total_mass_def)
  ultimately show ?thesis using b nz by blast
qed

theorem division_safety_witness:
  "interpolation_series \<noteq> [] \<and> sorted (map fst interpolation_series)
   \<and> list_all (\<lambda>p. 0 \<le> snd p) interpolation_series
   \<and> (\<exists>b col. baseline_q interpolation_series 25 = Inr (Some b) \<and> 0 \<le> b \<and> 1 + b \<noteq> 0
         \<and> adjusted_column interpolation_series 25 = Inr col \<and> None \<notin> set col)"
proof -
  have h1: "interpolation_series \<noteq> []" by (simp add: interpolation_series_def)
  have h2: "sorted (map fst interpolation_series)" by (simp add: interpolation_series_def)
  have h3: "\<forall>p\<in>set interpolation_series. 0 \<le> snd p" by (simp add: interpolation_series_def)
  have h3': "list_all (\<lambda>p. 0 \<le> snd p) interpolation_series"
    using h3 by (simp add: list_all_iff)
  show ?thesis using division_safety[OF h1 h2 h3, of 25] h1 h2 h3' by blast
qed

subsection \<open>C5: the end-to-end example\<close>

text \<open>
  C5 as stated gives 0.6203389830 for the adjusted uptake at RH = 100. The program
  computes \<open>(1 + 0.80 - 1.18) / 1.18 = 31/59\<close>, which is further than 0.09 from that
  number.
\<close>

theorem end_to_end_example_counterexample:
  "example_series ! 5 = (100, 0.80)
   \<and> adjusted_column example_series 40 =
       Inr [Some (- 13 / 118), Some (- 4 / 59), Some 0, Some (6 / 59), Some (16 / 59),
            Some (31 / 59)]
   \<and> 9 / 100 < \<bar>31 / 59 - (0.6203389830 :: real)\<bar>"
  by (simp add: example_series_def eval_core)

text \<open>
  C5, amended: for the series [(0,0.05),(20,0.10),(40,0.18),(60,0.30),(80,0.50),(100,0.80)]
  and \<open>start_rh = 40\<close>, the baseline is 0.18 and the initial total mass 1.18; the adjusted
  uptake at RH = 100 is \<open>(1 + 0.80 - 1.18) / 1.18\<close>, about 0.5254237288, and the adjusted
  uptake at RH = 0 is \<open>(1 + 0.05 - 1.18) / 1.18\<close>, about -0.11016949.
\<close>

theorem end_to_end_example:
  "baseline_q example_series 40 = Inr (Some 0.18)
   \<and> initial_total_mass (Some 0.18) = Some 1.18
   \<and> example_series ! 0 = (0, 0.05) \<and> example_series ! 5 = (100, 0.80)
   \<and> adjusted_column example_series 40 =
       Inr [Some ((1 + 0.05 - 1.18) / 1.18), Some (- 4 / 59), Some 0, Some (6 / 59),
            Some (16 / 59), Some ((1 + 0.80 - 1.18) / 1.18)]
   \<and> \<bar>(1 + 0.80 - 1.18) / 1.18 - (0.5254237288 :: real)\<bar> < 1 / 10 ^ 10
   \<and> \<bar>(1 + 0.05 - 1.18) / 1.18 - (- 0.11016949 :: real)\<bar> < 1 / 10 ^ 8"
  by (simp add: example_series_def eval_core)

subsection \<open>C6: interpolation between two samples\<close>

text \<open>
  C6: for the series [(0, 0.10), (50, 0.30), (100, 0.60)] and \<open>start_rh = 25\<close> the
  interpolated baseline is 0.20, halfway between 0.10 and 0.30.
\<close>

theorem interpolation_midpoint:
  "baseline_q interpolation_series 25 = Inr (Some 0.20)
   \<and> (0.20 :: real) = (0.10 + 0.30) / 2"
  by (simp add: interpolation_series_def eval_core)

subsection \<open>C7: monotonicity in the loading\<close>



subsection \<open>C8: insufficient input stops the run\<close>

text \<open>
  C8: whenever the uploaded table has fewer than two columns, or the cleaning of the
  selected columns (lines 45 to 52) yields a frame without rows, the run ends at
  \<open>st.stop()\<close> right after an error message, and the page holds neither the slider
  that supplies \<open>start_rh\<close> nor the chart nor the download button: the computation of
  lines 68 to 72 was not reached and nothing computed is shown. (The raw table, which
  line 32 shows before the checks, is on the page.)
\<close>

theorem fail_fast:
  assumes "uploaded_file inp = Some (Inr df_raw)"
    and "length (columns df_raw) < 2
         \<or> clean df_raw (rh_choice inp) (q_choice inp) = Inr []"
  shows "\<exists>page msg. run inp = (page @ [Error msg], Stopped)
           \<and> (\<forall>e\<in>set (page @ [Error msg]). \<not> after_cleaning e)"
proof (cases "df_empty df_raw \<or> length (columns df_raw) < 2")
  case True
  then have "run inp =
      ([Title ''Isotherm Shifter'', Write, FileUploader ''CSV file'',
        Subheader ''Raw Data'', Dataframe df_raw]
       @ [Error ''CSV must contain at least two numeric columns (RH and loading).''],
       Stopped)"
    using assms(1) by (simp add: run_def)
  then show ?thesis by fastforce
next
  case False
  then have cl: "clean df_raw (rh_choice inp) (q_choice inp) = Inr []"
    using assms(2) by simp
  have "run inp =
      ([Title ''Isotherm Shifter'', Write, FileUploader ''CSV file'',
        Subheader ''Raw Data'', Dataframe df_raw,
        Selectbox ''Column containing RH (%)'' (columns df_raw) 0,
        Selectbox ''Column containing loading (g water / g salt)'' (columns df_raw) 1]
       @ [Error ''Selected columns could not be converted to numeric values.''],
       Stopped)"
    using assms(1) False cl by (simp add: run_def)
  then show ?thesis by fastforce
qed

theorem fail_fast_witness:
  "length (columns [(''RH'', [Number 10, Number 20])]) < 2
   \<and> (\<exists>page msg.
         run \<lparr>uploaded_file = Some (Inr [(''RH'', [Number 10, Number 20])]),
              rh_choice = ''RH'', q_choice = ''RH'', slider_choice = 10\<rparr>
           = (page @ [Error msg], Stopped)
         \<and> list_all (\<lambda>e. \<not> after_cleaning e) (page @ [Error msg]))
   \<and> clean [(''RH'', [Number 10, Number 20]), (''q'', [Text ''dry'', Missing])] ''RH'' ''q''
       = Inr []
   \<and> (\<exists>page msg.
         run \<lparr>uploaded_file =
                Some (Inr [(''RH'', [Number 10, Number 20]), (''q'', [Text ''dry'', Missing])]),
              rh_choice = ''RH'', q_choice = ''q'', slider_choice = 10\<rparr>
           = (page @ [Error msg], Stopped)
         \<and> list_all (\<lambda>e. \<not> after_cleaning e) (page @ [Error msg]))"
proof -
  have h1: "length (columns [(''RH'', [Number 10, Number 20])]) < 2"
    by (simp add: columns_def)
  have h2: "clean [(''RH'', [Number 10, Number 20]), (''q'', [Text ''dry'', Missing])]
              ''RH'' ''q'' = Inr []"
    by (simp add: clean_def dropna_cells_def sort_values_def)
  have one: "\<exists>page msg.
         run \<lparr>uploaded_file = Some (Inr [(''RH'', [Number 10, Number 20])]),
              rh_choice = ''RH'', q_choice = ''RH'', slider_choice = 10\<rparr>
           = (page @ [Error msg], Stopped)
         \<and> list_all (\<lambda>e. \<not> after_cleaning e) (page @ [Error msg])"
    using fail_fast[of "\<lparr>uploaded_file = Some (Inr [(''RH'', [Number 10, Number 20])]),
              rh_choice = ''RH'', q_choice = ''RH'', slider_choice = 10\<rparr>"
            "[(''RH'', [Number 10, Number 20])]"] h1
    by (simp add: list_all_iff)
  have two: "\<exists>page msg.
         run \<lparr>uploaded_file =
                Some (Inr [(''RH'', [Number 10, Number 20]), (''q'', [Text ''dry'', Missing])]),
              rh_choice = ''RH'', q_choice = ''q'', slider_choice = 10\<rparr>
           = (page @ [Error msg], Stopped)
         \<and> list_all (\<lambda>e. \<not> after_cleaning e) (page @ [Error msg])"
    using fail_fast[of "\<lparr>uploaded_file =
                Some (Inr [(''RH'', [Number 10, Number 20]), (''q'', [Text ''dry'', Missing])]),
              rh_choice = ''RH'', q_choice = ''q'', slider_choice = 10\<rparr>"
            "[(''RH'', [Number 10, Number 20]), (''q'', [Text ''dry'', Missing])]"] h2
    by (simp add: list_all_iff)
  show ?thesis using h1 h2 one two by blast
qed

subsection \<open>C9: what the download holds\<close>




subsection \<open>C10: a series of one point\<close>




end
